theory Spec2Isabelle
  imports Main
begin

section \<open>The ring buffer of \<^verbatim>\<open>src/ring.hpp\<close>\<close>

text \<open>
  The class \<^verbatim>\<open>ring<T, Allocator>\<close> owns one block of \<^verbatim>\<open>capacity_\<close> slots and
  three pointers into it. A slot either holds a constructed object or is raw memory, so
  the block is a list of \<open>'a option\<close>: placement new writes \<open>Some\<close>, a destructor call
  writes \<open>None\<close>.

  A pointer into the block is its offset from the first slot, so that the expression
  \<^verbatim>\<open>data_end_ - capacity_\<close> (the start of the block) is computed as the source computes
  it. The null pointer of a ring without storage is offset 0 of the empty block.
  \<^verbatim>\<open>std::size_t\<close> is \<open>nat\<close>: the only subtractions of the source are
  \<^verbatim>\<open>data_end_ - capacity_\<close>, differences of two pointers into the block,
  \<^verbatim>\<open>capacity_ - size\<close> and a pointer minus such a number; in every state that
  satisfies \<open>wf\<close> below (all reachable states do) none of them is negative where it is
  evaluated.

  A member name with a trailing underscore is not a name of Isabelle: the member
  \<^verbatim>\<open>capacity_\<close> is the field \<open>capacity_m\<close>, and so on.
\<close>

record 'a ring =
  capacity_m :: nat
  storage :: "'a option list"
  data_end_m :: nat
  lower_bond_m :: nat
  upper_bond_m :: nat

text \<open>
  \<^verbatim>\<open>Allocator::allocate\<close> is not code of this class. The standard allocator either
  returns a block of raw slots or throws \<^verbatim>\<open>std::bad_alloc\<close>; which of the two happens at
  a call is the parameter \<open>ok\<close>.
\<close>

datatype error = Bad_alloc

definition allocate :: "bool \<Rightarrow> nat \<Rightarrow> error + 'a option list" where
  "allocate ok n = (if ok then Inr (replicate n None) else Inl Bad_alloc)"

text \<open>
  What a member function that can throw leaves behind: it returns with the new state, or
  the exception leaves it with the buffer in the state given, or it walks a pointer out
  of the block (undefined behaviour).
\<close>

datatype 'a outcome = Returns "'a ring" | Throws error "'a ring" | Undefined

text \<open>Reading a slot: \<open>None\<close> when there is no constructed object at that place.\<close>

definition slot :: "'a option list \<Rightarrow> nat \<Rightarrow> 'a option" where
  "slot st p = (if p < length st then st ! p else None)"

subsection \<open>Constructors and queries\<close>

definition ring_default :: "'a ring" where
  "ring_default =
     \<lparr>capacity_m = 0, storage = [], data_end_m = 0, lower_bond_m = 0, upper_bond_m = 0\<rparr>"

definition ring_sized :: "bool \<Rightarrow> nat \<Rightarrow> error + 'a ring" where
  "ring_sized ok capacity =
     (case allocate ok capacity of
        Inl e \<Rightarrow> Inl e
      | Inr blk \<Rightarrow>
          Inr \<lparr>capacity_m = capacity, storage = blk, data_end_m = 0 + capacity,
               lower_bond_m = (0 + capacity) - capacity, upper_bond_m = 0 + capacity\<rparr>)"

definition full :: "'a ring \<Rightarrow> bool" where
  "full s = (upper_bond_m s = lower_bond_m s)"

definition empty_ring :: "'a ring \<Rightarrow> bool" where
  "empty_ring s = (upper_bond_m s = data_end_m s)"

definition size_ring :: "'a ring \<Rightarrow> nat" where
  "size_ring s =
     (if upper_bond_m s \<noteq> data_end_m s then
        (if upper_bond_m s > lower_bond_m s then upper_bond_m s - lower_bond_m s
         else upper_bond_m s + capacity_m s - lower_bond_m s)
      else 0)"

definition capacity :: "'a ring \<Rightarrow> nat" where
  "capacity s = capacity_m s"

subsection \<open>push and pop\<close>

definition unset_empty :: "'a ring \<Rightarrow> 'a ring" where
  "unset_empty s =
     (if upper_bond_m s = data_end_m s then
        s\<lparr>upper_bond_m := data_end_m s - capacity_m s,
          lower_bond_m := data_end_m s - capacity_m s\<rparr>
      else s)"

text \<open>
  \<^verbatim>\<open>new (upper_bond_++) T{...}\<close> followed by the wrap at \<^verbatim>\<open>data_end_\<close>: the body shared
  by the two overloads of \<^verbatim>\<open>push\<close>.
\<close>

definition construct_at_upper :: "'a \<Rightarrow> 'a ring \<Rightarrow> 'a ring" where
  "construct_at_upper v s =
     (let s1 = s\<lparr>storage := (storage s)[upper_bond_m s := Some v],
                 upper_bond_m := upper_bond_m s + 1\<rparr>
      in if upper_bond_m s1 = data_end_m s1
         then s1\<lparr>upper_bond_m := data_end_m s1 - capacity_m s1\<rparr>
         else s1)"

definition push :: "'a \<Rightarrow> 'a ring \<Rightarrow> 'a ring" where
  "push item s = construct_at_upper item (unset_empty s)"

text \<open>
  \<^verbatim>\<open>push(const T* begin, const T* end)\<close>. The caller's range is the address \<open>begin\<close>
  and the list of the objects stored from there on (\<^verbatim>\<open>end\<close> is \<open>begin\<close> plus its
  length). The loop body is \<^verbatim>\<open>new (upper_bond_++) T{ begin++ }\<close>: the new element is
  constructed from the pointer, which is never dereferenced, so the model takes the
  conversion \<open>of_ptr\<close> from an address to \<open>'a\<close> that \<^verbatim>\<open>T{ begin }\<close> performs, and the
  objects of the range are not read.
\<close>

fun push_loop :: "(nat \<Rightarrow> 'a) \<Rightarrow> nat \<Rightarrow> 'a list \<Rightarrow> 'a ring \<Rightarrow> 'a ring" where
  "push_loop of_ptr begin [] s = s"
| "push_loop of_ptr begin (x # xs) s =
     push_loop of_ptr (begin + 1) xs (construct_at_upper (of_ptr begin) s)"

definition push_range :: "(nat \<Rightarrow> 'a) \<Rightarrow> nat \<Rightarrow> 'a list \<Rightarrow> 'a ring \<Rightarrow> 'a ring" where
  "push_range of_ptr begin xs s = push_loop of_ptr begin xs (unset_empty s)"

text \<open>\<^verbatim>\<open>pop\<close> returns what it read at \<^verbatim>\<open>lower_bond_\<close> and the new state.\<close>

definition pop :: "'a ring \<Rightarrow> 'a option \<times> 'a ring" where
  "pop s =
     (let item = slot (storage s) (lower_bond_m s);
          s1 = s\<lparr>storage := (storage s)[lower_bond_m s := None],
                 lower_bond_m := lower_bond_m s + 1\<rparr>;
          s2 = (if lower_bond_m s1 = data_end_m s1
                then s1\<lparr>lower_bond_m := data_end_m s1 - capacity_m s1\<rparr> else s1);
          s3 = (if lower_bond_m s2 = upper_bond_m s2
                then s2\<lparr>upper_bond_m := data_end_m s2\<rparr> else s2)
      in (item, s3))"

subsection \<open>data\<close>

text \<open>
  As it stands in the source, \<^verbatim>\<open>data\<close> is ill-formed whenever it is instantiated: its
  return type is \<^verbatim>\<open>std::array<std::pair<T*, T*>, 2>\<close>, and the two statements
  \<^verbatim>\<open>return { { p, q }, { r, s } };\<close> lack the pair of braces around the two pairs that
  this type needs, so that the first inner list is taken for the whole array of pairs and
  the second is one initialiser too many. No program that calls \<^verbatim>\<open>data\<close> compiles.
  The definition below is therefore not the function as shipped: it is the function
  with that one pair of braces added to each return statement, which returns the two
  pairs of pointers that are written there. Every statement about \<open>data\<close> in this theory
  is a statement about this repaired reading. The test \<^verbatim>\<open>lower_bond_ > upper_bond_\<close> and
  the pointers are as in the source; the second pair is \<open>None\<close> where the source writes
  \<^verbatim>\<open>{ nullptr, nullptr }\<close>.
\<close>

definition data :: "'a ring \<Rightarrow> (nat \<times> nat) \<times> (nat \<times> nat) option" where
  "data s =
     (if lower_bond_m s > upper_bond_m s then
        ((lower_bond_m s, data_end_m s), Some (data_end_m s - capacity_m s, upper_bond_m s))
      else ((lower_bond_m s, upper_bond_m s), None))"

subsection \<open>reserve\<close>

text \<open>
  The three loops \<^verbatim>\<open>while (p != stop) { (--p)->~T(); }\<close>. A pointer that would leave the
  block below its first slot is the result \<open>None\<close>.
\<close>

fun destroy_down :: "'a option list \<Rightarrow> nat \<Rightarrow> nat \<Rightarrow> ('a option list \<times> nat) option" where
  "destroy_down st p stop =
     (if p = stop then Some (st, p)
      else if p = 0 then None
      else destroy_down (st[p - 1 := None]) (p - 1) stop)"

declare destroy_down.simps [simp del]

text \<open>
  The two loops \<^verbatim>\<open>while (lower_bond_ < stop) { new (it++) T{ std::move(*lower_bond_) };
  (lower_bond_++)->~T(); }\<close>, from the old block to the new one.
\<close>

function move_up ::
  "'a option list \<Rightarrow> 'a option list \<Rightarrow> nat \<Rightarrow> nat \<Rightarrow> nat \<Rightarrow>
   'a option list \<times> 'a option list \<times> nat \<times> nat" where
  "move_up old new lo it stop =
     (if lo < stop
      then move_up (old[lo := None]) (new[it := slot old lo]) (lo + 1) (it + 1) stop
      else (old, new, lo, it))"
  by pat_completeness auto
termination
  by (relation "measure (\<lambda>(old, new, lo, it, stop). stop - lo)") auto

declare move_up.simps [simp del]

text \<open>
  Lines 147 to 170: what does not fit into \<open>size_n\<close> slots (the parameter \<^verbatim>\<open>size\<close>) is destroyed, from the back. The
  result is the state and the local \<^verbatim>\<open>first_upper_bond\<close>.
\<close>

definition discard_back :: "nat \<Rightarrow> nat \<Rightarrow> nat \<Rightarrow> 'a ring \<Rightarrow> ('a ring \<times> nat) option" where
  "discard_back size_n data_begin first_upper_bond s =
     (if first_upper_bond - lower_bond_m s > size_n then
        (case (if first_upper_bond \<noteq> upper_bond_m s
               then destroy_down (storage s) (upper_bond_m s) data_begin
               else Some (storage s, upper_bond_m s)) of
           None \<Rightarrow> None
         | Some (st1, up1) \<Rightarrow>
             (case destroy_down st1 first_upper_bond (lower_bond_m s + size_n) of
                None \<Rightarrow> None
              | Some (st2, fub2) \<Rightarrow>
                  Some (s\<lparr>storage := st2, upper_bond_m := lower_bond_m s + size_n\<rparr>, fub2)))
      else if lower_bond_m s \<ge> upper_bond_m s \<and>
              capacity_m s - (lower_bond_m s - upper_bond_m s) > size_n then
        (let second_upper_bond = lower_bond_m s - (capacity_m s - size_n)
         in case destroy_down (storage s) (upper_bond_m s) second_upper_bond of
              None \<Rightarrow> None
            | Some (st1, up1) \<Rightarrow>
                Some (s\<lparr>storage := st1, upper_bond_m := up1\<rparr>, first_upper_bond))
      else Some (s, first_upper_bond))"

text \<open>Lines 171 to 186: the live elements move to the new block \<open>data\<close>.\<close>

definition relocate :: "nat \<Rightarrow> 'a option list \<Rightarrow> nat \<Rightarrow> nat \<Rightarrow> 'a ring \<Rightarrow> 'a ring" where
  "relocate size_n data_blk data_begin first_upper_bond s =
     (case move_up (storage s) data_blk (lower_bond_m s) 0 first_upper_bond of
        (old1, new1, lo1, it1) \<Rightarrow>
          (let lo2 = (if lo1 > upper_bond_m s then data_begin else lo1)
           in case move_up old1 new1 lo2 it1 (upper_bond_m s) of
                (old2, new2, lo3, it2) \<Rightarrow>
                  \<lparr>capacity_m = size_n, storage = new2, data_end_m = 0 + size_n,
                   lower_bond_m = 0, upper_bond_m = it2\<rparr>))"

definition reserve :: "bool \<Rightarrow> nat \<Rightarrow> 'a ring \<Rightarrow> 'a outcome" where
  "reserve ok size_n s =
     (if capacity_m s \<noteq> size_n then
        (case (if size_n \<noteq> 0 then allocate ok size_n else Inr []) of
           Inl e \<Rightarrow> Throws e s
         | Inr data_blk \<Rightarrow>
             (let data_begin = data_end_m s - capacity_m s in
              if upper_bond_m s \<noteq> data_end_m s then
                (let first_upper_bond =
                       (if lower_bond_m s < upper_bond_m s then upper_bond_m s
                        else data_end_m s)
                 in case discard_back size_n data_begin first_upper_bond s of
                      None \<Rightarrow> Undefined
                    | Some (s1, fub1) \<Rightarrow>
                        Returns (relocate size_n data_blk data_begin fub1 s1))
              else
                Returns \<lparr>capacity_m = size_n, storage = data_blk, data_end_m = 0 + size_n,
                         lower_bond_m = 0, upper_bond_m = 0 + size_n\<rparr>))
      else Returns s)"

subsection \<open>Specification-level notions\<close>

text \<open>
  The objects in the half-open pointer range from \<open>b\<close> to \<open>e\<close> of a block, and the number
  of objects of such a range, \<^verbatim>\<open>e - b\<close>.
\<close>

definition span :: "'a option list \<Rightarrow> nat \<times> nat \<Rightarrow> 'a option list" where
  "span st r = map (slot st) [fst r..<snd r]"

definition span_length :: "nat \<times> nat \<Rightarrow> nat" where
  "span_length r = snd r - fst r"

text \<open>What the caller reads through the two spans of \<open>data\<close>, first span first.\<close>

definition data_contents :: "'a ring \<Rightarrow> 'a option list" where
  "data_contents s =
     (case data s of
        (r1, None) \<Rightarrow> span (storage s) r1
      | (r1, Some r2) \<Rightarrow> span (storage s) r1 @ span (storage s) r2)"

definition data_length :: "'a ring \<Rightarrow> nat" where
  "data_length s =
     (case data s of
        (r1, None) \<Rightarrow> span_length r1
      | (r1, Some r2) \<Rightarrow> span_length r1 + span_length r2)"

text \<open>
  The structural invariant of the data model: the three pointers lie in the block, and
  \<^verbatim>\<open>lower_bond_\<close> is never \<^verbatim>\<open>data_end_\<close> in a block that has a slot.
\<close>

definition wf :: "'a ring \<Rightarrow> bool" where
  "wf s \<longleftrightarrow>
     data_end_m s = capacity_m s \<and> length (storage s) = capacity_m s \<and>
     lower_bond_m s \<le> data_end_m s \<and> upper_bond_m s \<le> data_end_m s \<and>
     (0 < capacity_m s \<longrightarrow> lower_bond_m s < data_end_m s)"

text \<open>
  The live interval of the data model, front to back: nothing when \<^verbatim>\<open>upper_bond_\<close> is the
  sentinel \<^verbatim>\<open>data_end_\<close>, one run from head to tail when head is below tail, and otherwise
  the run from head to the end of the block followed by the run from its start to tail.
\<close>

definition live :: "'a ring \<Rightarrow> 'a option list" where
  "live s =
     (if upper_bond_m s = data_end_m s then []
      else if lower_bond_m s < upper_bond_m s
      then span (storage s) (lower_bond_m s, upper_bond_m s)
      else span (storage s) (lower_bond_m s, data_end_m s) @
           span (storage s) (data_end_m s - capacity_m s, upper_bond_m s))"

text \<open>The ring \<open>s\<close> holds exactly the queue \<open>q\<close>, oldest element first.\<close>

definition rep :: "'a ring \<Rightarrow> 'a list \<Rightarrow> bool" where
  "rep s q \<longleftrightarrow> wf s \<and> live s = map Some q"

text \<open>
  A caller that respects the preconditions: \<open>run\<close> performs a list of operations, stops
  with \<open>None\<close> when the next \<open>Push\<close> meets a full ring or the next \<open>Pop\<close> an empty one, and
  collects what the calls of \<open>pop\<close> return.
\<close>

datatype 'a op = Push 'a | Pop

fun run :: "'a op list \<Rightarrow> 'a ring \<Rightarrow> ('a option list \<times> 'a ring) option" where
  "run [] s = Some ([], s)"
| "run (Push x # ops) s = (if full s then None else run ops (push x s))"
| "run (Pop # ops) s =
     (if empty_ring s then None
      else (case pop s of
              (v, s') \<Rightarrow>
                (case run ops s' of None \<Rightarrow> None | Some (vs, t) \<Rightarrow> Some (v # vs, t))))"

fun pushed :: "'a op list \<Rightarrow> 'a list" where
  "pushed [] = []"
| "pushed (Push x # ops) = x # pushed ops"
| "pushed (Pop # ops) = pushed ops"

fun pops :: "'a op list \<Rightarrow> nat" where
  "pops [] = 0"
| "pops (Push x # ops) = pops ops"
| "pops (Pop # ops) = Suc (pops ops)"

text \<open>
  The states a caller can reach through the public operations, each used under the
  precondition its comment states.
\<close>

inductive reachable :: "'a ring \<Rightarrow> bool" where
  reach_default: "reachable ring_default"
| reach_sized: "ring_sized ok c = Inr s \<Longrightarrow> reachable s"
| reach_push: "reachable s \<Longrightarrow> \<not> full s \<Longrightarrow> reachable (push x s)"
| reach_push_range:
    "reachable s \<Longrightarrow> length xs \<le> capacity s - size_ring s \<Longrightarrow>
     reachable (push_range of_ptr b xs s)"
| reach_pop: "reachable s \<Longrightarrow> \<not> empty_ring s \<Longrightarrow> reachable (snd (pop s))"
| reach_reserve: "reachable s \<Longrightarrow> reserve ok n s = Returns s' \<Longrightarrow> reachable s'"
| reach_reserve_throws: "reachable s \<Longrightarrow> reserve ok n s = Throws e s' \<Longrightarrow> reachable s'"

text \<open>States used as concrete inputs below.\<close>

abbreviation fresh2 :: "nat ring" where
  "fresh2 \<equiv>
     \<lparr>capacity_m = 2, storage = [None, None], data_end_m = 2, lower_bond_m = 0,
      upper_bond_m = 2\<rparr>"

abbreviation fresh3 :: "nat ring" where
  "fresh3 \<equiv>
     \<lparr>capacity_m = 3, storage = [None, None, None], data_end_m = 3, lower_bond_m = 0,
      upper_bond_m = 3\<rparr>"

abbreviation two_of_3 :: "nat ring" where
  "two_of_3 \<equiv>
     \<lparr>capacity_m = 3, storage = [Some 1, Some 2, None], data_end_m = 3, lower_bond_m = 0,
      upper_bond_m = 2\<rparr>"

abbreviation full3 :: "nat ring" where
  "full3 \<equiv>
     \<lparr>capacity_m = 3, storage = [Some 1, Some 2, Some 3], data_end_m = 3, lower_bond_m = 0,
      upper_bond_m = 0\<rparr>"

abbreviation wrapped3 :: "nat ring" where
  "wrapped3 \<equiv>
     \<lparr>capacity_m = 3, storage = [Some 4, None, Some 3], data_end_m = 3, lower_bond_m = 2,
      upper_bond_m = 1\<rparr>"

abbreviation after_reserve2 :: "nat ring" where
  "after_reserve2 \<equiv>
     \<lparr>capacity_m = 2, storage = [Some 1, Some 2], data_end_m = 2, lower_bond_m = 0,
      upper_bond_m = 2\<rparr>"

section \<open>Invariants and the queue a ring holds\<close>

lemma slot_update: "slot (st[i := v]) j = (if i = j \<and> i < length st then v else slot st j)"
  by (simp add: slot_def)

lemma span_empty: "e \<le> b \<Longrightarrow> span st (b, e) = []"
  by (simp add: span_def)

lemma span_update_outside: "i < b \<or> e \<le> i \<Longrightarrow> span (st[i := v]) (b, e) = span st (b, e)"
  by (auto simp: span_def slot_update)

lemma span_snoc: "b \<le> e \<Longrightarrow> span st (b, Suc e) = span st (b, e) @ [slot st e]"
  by (simp add: span_def)

lemma span_Cons: "b < e \<Longrightarrow> span st (b, e) = slot st b # span st (Suc b, e)"
  by (simp add: span_def upt_conv_Cons)

lemma span_snoc_update:
  "b \<le> e \<Longrightarrow> Suc e = n \<Longrightarrow> e < length st \<Longrightarrow>
   span (st[e := v]) (b, n) = span st (b, e) @ [v]"
  by (auto simp: span_def slot_update)

lemma length_span: "length (span st (b, e)) = e - b"
  by (simp add: span_def)

lemma size_ring_live: "wf s \<Longrightarrow> length (live s) = size_ring s"
  by (auto simp: wf_def live_def size_ring_def length_span)

lemma rep_size: "rep s q \<Longrightarrow> size_ring s = length q"
  using size_ring_live [of s] by (simp add: rep_def)

lemma rep_push:
  assumes "rep s q" "\<not> full s"
  shows "rep (push x s) (q @ [x])"
proof -
  from assms have w: "wf s" and l: "live s = map Some q" by (simp_all add: rep_def)
  show ?thesis
  proof (cases "upper_bond_m s = data_end_m s")
    case True
    with w assms(2) have c: "0 < capacity_m s" by (auto simp: wf_def full_def)
    from True l have "q = []" by (simp add: live_def)
    with True w c show ?thesis
      by (auto simp: rep_def wf_def push_def unset_empty_def construct_at_upper_def Let_def
          live_def span_def slot_def upt_conv_Cons)
  next
    case False
    with w assms(2) l show ?thesis
      apply (auto simp: rep_def wf_def push_def unset_empty_def construct_at_upper_def Let_def
          live_def full_def span_update_outside span_snoc slot_update span_empty span_snoc_update)
      done
  qed
qed



lemma pop_fields:
  "storage (snd (pop s)) = (storage s)[lower_bond_m s := None]"
  "capacity_m (snd (pop s)) = capacity_m s"
  "data_end_m (snd (pop s)) = data_end_m s"
  "lower_bond_m (snd (pop s)) =
     (if lower_bond_m s + 1 = data_end_m s then data_end_m s - capacity_m s
      else lower_bond_m s + 1)"
  "upper_bond_m (snd (pop s)) =
     (if lower_bond_m (snd (pop s)) = upper_bond_m s then data_end_m s else upper_bond_m s)"
  "fst (pop s) = slot (storage s) (lower_bond_m s)"
  by (simp_all add: pop_def Let_def)

lemma rep_nonempty:
  assumes "rep s q" "\<not> empty_ring s"
  shows "\<exists>q'. live s = slot (storage s) (lower_bond_m s) # q'"
proof -
  from assms have w: "wf s" by (simp add: rep_def)
  from w assms(2) have c: "lower_bond_m s < data_end_m s"
    by (auto simp: wf_def empty_ring_def)
  show ?thesis
  proof (cases "lower_bond_m s < upper_bond_m s")
    case True
    with assms(2) show ?thesis by (simp add: live_def empty_ring_def span_Cons)
  next
    case False
    with assms(2) c show ?thesis by (simp add: live_def empty_ring_def span_Cons)
  qed
qed

lemma wf_pop:
  assumes "wf s" "\<not> empty_ring s"
  shows "wf (snd (pop s))"
  using assms by (auto simp: wf_def empty_ring_def pop_fields)

lemma live_pop:
  assumes "wf s" "\<not> empty_ring s"
  shows "live (snd (pop s)) = tl (live s)"
proof -
  let ?lo = "lower_bond_m s" and ?up = "upper_bond_m s" and ?st = "storage s"
  from assms have c: "?lo < data_end_m s" "?up < data_end_m s" "data_end_m s = capacity_m s"
    by (auto simp: wf_def empty_ring_def)
  show ?thesis
  proof (cases "?lo < ?up")
    case True
    then have a: "live s = slot ?st ?lo # span ?st (Suc ?lo, ?up)"
      using c by (simp add: live_def span_Cons)
    from True c have "live (snd (pop s)) = span ?st (Suc ?lo, ?up)"
      by (auto simp: live_def pop_fields span_update_outside span_empty)
    with a show ?thesis by simp
  next
    case False
    then have a: "live s = slot ?st ?lo # span ?st (Suc ?lo, data_end_m s) @ span ?st (0, ?up)"
      using c by (simp add: live_def span_Cons)
    from False c have "live (snd (pop s)) = span ?st (Suc ?lo, data_end_m s) @ span ?st (0, ?up)"
      by (auto simp: live_def pop_fields span_update_outside span_empty)
    with a show ?thesis by simp
  qed
qed

lemma rep_pop:
  assumes "rep s (x # q)" "\<not> empty_ring s"
  shows "pop s = (Some x, snd (pop s)) \<and> rep (snd (pop s)) q"
proof -
  from assms have w: "wf s" and l: "live s = Some x # map Some q" by (simp_all add: rep_def)
  from rep_nonempty [OF assms] l have "fst (pop s) = Some x" by (auto simp: pop_fields)
  moreover from live_pop [OF w assms(2)] l wf_pop [OF w assms(2)] have "rep (snd (pop s)) q"
    by (simp add: rep_def)
  ultimately show ?thesis by (metis prod.collapse)
qed

lemma rep_empty:
  assumes "rep s q"
  shows "empty_ring s \<longleftrightarrow> q = []"
proof
  assume "empty_ring s"
  with assms show "q = []" by (simp add: rep_def live_def empty_ring_def)
next
  assume q: "q = []"
  show "empty_ring s"
  proof (rule ccontr)
    assume "\<not> empty_ring s"
    from rep_nonempty [OF assms this] assms q show False by (auto simp: rep_def)
  qed
qed

lemma rep_sized: "ring_sized True c = Inr s \<Longrightarrow> rep s []"
  by (auto simp: ring_sized_def allocate_def rep_def wf_def live_def)

lemma rep_default: "rep ring_default []"
  by (auto simp: ring_default_def rep_def wf_def live_def)

lemma run_rep:
  "rep s q \<Longrightarrow> run ops s = Some (outs, t) \<Longrightarrow>
   pops ops \<le> length (q @ pushed ops) \<and>
   outs = map Some (take (pops ops) (q @ pushed ops)) \<and>
   rep t (drop (pops ops) (q @ pushed ops))"
proof (induction ops s arbitrary: q outs rule: run.induct)
  case (1 s)
  then show ?case by simp
next
  case (2 x ops s)
  from "2.prems" have nf: "\<not> full s" and r: "run ops (push x s) = Some (outs, t)"
    by (auto split: if_splits)
  from "2.IH" [OF nf rep_push [OF "2.prems"(1) nf] r] show ?case by simp
next
  case (3 ops s)
  from "3.prems" have ne: "\<not> empty_ring s" by (auto split: if_splits)
  with rep_empty [OF "3.prems"(1)] obtain x q' where q: "q = x # q'" by (cases q) auto
  from rep_pop [of s x q'] "3.prems"(1) ne q
  have p: "pop s = (Some x, snd (pop s))" and r: "rep (snd (pop s)) q'" by simp_all
  from "3.prems"(2) ne p obtain vs where
    rr: "run ops (snd (pop s)) = Some (vs, t)" and o: "outs = Some x # vs"
    by (auto split: option.splits prod.splits)
  from "3.IH" [OF ne p [symmetric] r rr] q o show ?case by simp
qed

lemma push_capacity: "capacity_m (push x s) = capacity_m s"
  by (simp add: push_def unset_empty_def construct_at_upper_def Let_def)

lemma run_capacity: "run ops s = Some (outs, t) \<Longrightarrow> capacity_m t = capacity_m s"
proof (induction ops s arbitrary: outs rule: run.induct)
  case (1 s)
  then show ?case by simp
next
  case (2 x ops s)
  then show ?case by (auto simp: push_capacity split: if_splits)
next
  case (3 ops s)
  from "3.prems" have ne: "\<not> empty_ring s" by (auto split: if_splits)
  with "3.prems" obtain vs where "run ops (snd (pop s)) = Some (vs, t)"
    by (auto split: option.splits prod.splits)
  from "3.IH" [OF ne prod.collapse this] show ?case by (simp add: pop_fields)
qed

lemma sized_capacity: "ring_sized ok c = Inr s \<Longrightarrow> capacity_m s = c"
  by (auto simp: ring_sized_def allocate_def split: if_splits)

lemma size_ring_le: "wf s \<Longrightarrow> size_ring s \<le> capacity_m s"
  by (auto simp: wf_def size_ring_def)

lemma full_iff_size: "wf s \<Longrightarrow> full s \<longleftrightarrow> size_ring s = capacity_m s"
  by (auto simp: wf_def full_def size_ring_def)

lemma empty_iff_size: "wf s \<Longrightarrow> empty_ring s \<longleftrightarrow> size_ring s = 0"
  by (auto simp: wf_def empty_ring_def size_ring_def)

lemma destroy_down_Some:
  "destroy_down st p stop = Some (st', p') \<Longrightarrow> p' = stop \<and> length st' = length st"
proof (induction st p stop rule: destroy_down.induct)
  case (1 st p stop)
  show ?case
  proof (cases "p = stop")
    case True
    with "1.prems" show ?thesis by (simp add: destroy_down.simps)
  next
    case False
    with "1.prems" have z: "p \<noteq> 0"
      and r: "destroy_down (st[p - 1 := None]) (p - 1) stop = Some (st', p')"
      by (auto simp: destroy_down.simps [of st p stop] split: if_splits)
    from "1.IH" [OF False z r] show ?thesis by simp
  qed
qed

lemma move_up_result:
  "move_up old new lo it stop = (old', new', lo', it') \<Longrightarrow>
   lo' = max lo stop \<and> it' = it + (stop - lo) \<and>
   length new' = length new \<and> length old' = length old"
proof (induction old new lo it stop rule: move_up.induct)
  case (1 old new lo it stop)
  show ?case
  proof (cases "lo < stop")
    case True
    with "1.prems" have
      "move_up (old[lo := None]) (new[it := slot old lo]) (lo + 1) (it + 1) stop =
       (old', new', lo', it')"
      by (simp add: move_up.simps [of old new lo it stop])
    from "1.IH" [OF True this] True show ?thesis by auto
  next
    case False
    with "1.prems" show ?thesis by (auto simp: move_up.simps [of old new lo it stop])
  qed
qed

lemma discard_back_result:
  assumes "wf s" "upper_bond_m s \<noteq> data_end_m s"
    and "fub = (if lower_bond_m s < upper_bond_m s then upper_bond_m s else data_end_m s)"
    and "discard_back n (data_end_m s - capacity_m s) fub s = Some (s1, fub1)"
  shows "lower_bond_m s1 = lower_bond_m s \<and> lower_bond_m s \<le> fub1 \<and>
         (fub1 - lower_bond_m s) +
           (upper_bond_m s1 - (if fub1 > upper_bond_m s1 then 0 else fub1)) \<le> n"
proof -
  from assms(1,2) have c: "lower_bond_m s < data_end_m s" "upper_bond_m s < data_end_m s"
    "data_end_m s = capacity_m s"
    by (auto simp: wf_def)
  show ?thesis
  proof (cases "fub - lower_bond_m s > n")
    case True
    with assms(4) obtain st1 up1 st2 where
      d: "destroy_down st1 fub (lower_bond_m s + n) = Some (st2, fub1)"
      and s1: "s1 = s\<lparr>storage := st2, upper_bond_m := lower_bond_m s + n\<rparr>"
      by (auto simp: discard_back_def split: option.splits if_splits)
    from destroy_down_Some [OF d] s1 show ?thesis by simp
  next
    case False
    note nA = this
    show ?thesis
    proof (cases "lower_bond_m s \<ge> upper_bond_m s \<and>
              capacity_m s - (lower_bond_m s - upper_bond_m s) > n")
      case True
      with nA assms(4) obtain st1 up1 where
        d: "destroy_down (storage s) (upper_bond_m s)
              (lower_bond_m s - (capacity_m s - n)) = Some (st1, up1)"
        and s1: "s1 = s\<lparr>storage := st1, upper_bond_m := up1\<rparr>" and f: "fub1 = fub"
        by (auto simp: discard_back_def Let_def split: option.splits)
      from destroy_down_Some [OF d] have "up1 = lower_bond_m s - (capacity_m s - n)" by simp
      with s1 f True nA assms(3) c show ?thesis by auto
    next
      case False
      with nA assms(4) have "s1 = s" "fub1 = fub" by (auto simp: discard_back_def)
      with False nA assms(3) c show ?thesis by auto
    qed
  qed
qed

lemma wf_relocate:
  assumes "lower_bond_m s \<le> fub"
    and "(fub - lower_bond_m s) + (upper_bond_m s - (if fub > upper_bond_m s then 0 else fub)) \<le> n"
    and "length blk = n"
  shows "wf (relocate n blk 0 fub s)"
proof -
  obtain old1 new1 lo1 it1 where
    m1: "move_up (storage s) blk (lower_bond_m s) 0 fub = (old1, new1, lo1, it1)"
    by (metis prod_cases4)
  obtain old2 new2 lo3 it2 where
    m2: "move_up old1 new1 (if lo1 > upper_bond_m s then 0 else lo1) it1 (upper_bond_m s) =
         (old2, new2, lo3, it2)"
    by (metis prod_cases4)
  from move_up_result [OF m1] move_up_result [OF m2] assms
  have "it2 \<le> n" "length new2 = n" by (auto simp: max_def split: if_splits)
  with m1 m2 show ?thesis by (simp add: relocate_def Let_def wf_def)
qed

lemma reserve_Returns:
  assumes "reserve ok n s = Returns s'" "capacity_m s \<noteq> n"
  shows "(n = 0 \<or> ok) \<and>
         (if upper_bond_m s = data_end_m s
          then s' = \<lparr>capacity_m = n, storage = replicate n None, data_end_m = n,
                     lower_bond_m = 0, upper_bond_m = n\<rparr>
          else \<exists>s1 fub1.
                 discard_back n (data_end_m s - capacity_m s)
                   (if lower_bond_m s < upper_bond_m s then upper_bond_m s else data_end_m s) s =
                   Some (s1, fub1) \<and>
                 s' = relocate n (replicate n None) (data_end_m s - capacity_m s) fub1 s1)"
proof -
  have a: "(if n \<noteq> 0 then allocate ok n else Inr []) =
           (if n = 0 \<or> ok then Inr (replicate n None) else Inl Bad_alloc :: error + 'a option list)"
    by (simp add: allocate_def)
  from assms show ?thesis
    unfolding reserve_def a by (auto simp: Let_def split: option.splits if_splits)
qed

lemma wf_reserve:
  assumes "wf s" "reserve ok n s = Returns s'"
  shows "wf s'"
proof (cases "capacity_m s = n")
  case True
  with assms show ?thesis by (simp add: reserve_def)
next
  case False
  from assms(1) have b: "data_end_m s - capacity_m s = 0" by (simp add: wf_def)
  show ?thesis
  proof (cases "upper_bond_m s = data_end_m s")
    case True
    with reserve_Returns [OF assms(2) False] show ?thesis by (auto simp: wf_def)
  next
    case ne: False
    let ?fub = "if lower_bond_m s < upper_bond_m s then upper_bond_m s else data_end_m s"
    from reserve_Returns [OF assms(2) False] ne b obtain s1 fub1 where
      d: "discard_back n (data_end_m s - capacity_m s) ?fub s = Some (s1, fub1)"
      and r: "s' = relocate n (replicate n None) 0 fub1 s1"
      by auto
    from discard_back_result [OF assms(1) ne refl d]
    have "wf (relocate n (replicate n None) 0 fub1 s1)"
      by (intro wf_relocate) auto
    with r show ?thesis by simp
  qed
qed

lemma wf_construct:
  assumes "wf s" "upper_bond_m s < data_end_m s"
  shows "wf (construct_at_upper v s) \<and>
         upper_bond_m (construct_at_upper v s) < data_end_m (construct_at_upper v s)"
  using assms by (auto simp: wf_def construct_at_upper_def Let_def)

lemma wf_unset_empty:
  assumes "wf s"
  shows "wf (unset_empty s)"
  using assms by (auto simp: wf_def unset_empty_def)

lemma unset_empty_upper:
  assumes "wf s" "0 < capacity_m s"
  shows "upper_bond_m (unset_empty s) < data_end_m (unset_empty s)"
  using assms by (auto simp: wf_def unset_empty_def)

lemma wf_push:
  assumes "wf s" "\<not> full s"
  shows "wf (push x s)"
proof -
  from assms have "0 < capacity_m s" by (auto simp: wf_def full_def)
  from wf_construct [OF wf_unset_empty [OF assms(1)] unset_empty_upper [OF assms(1) this]]
  show ?thesis by (simp add: push_def)
qed

lemma wf_push_loop:
  "wf s \<Longrightarrow> upper_bond_m s < data_end_m s \<Longrightarrow> wf (push_loop of_ptr b xs s)"
proof (induction xs arbitrary: b s)
  case Nil
  then show ?case by simp
next
  case (Cons x xs)
  from wf_construct [OF Cons.prems] Cons.IH show ?case by simp
qed

lemma wf_push_range:
  assumes "wf s" "length xs \<le> capacity s - size_ring s"
  shows "wf (push_range of_ptr b xs s)"
proof (cases xs)
  case Nil
  with wf_unset_empty [OF assms(1)] show ?thesis by (simp add: push_range_def)
next
  case (Cons y ys)
  with assms(2) have "0 < capacity_m s" by (simp add: capacity_def)
  from wf_push_loop [OF wf_unset_empty [OF assms(1)] unset_empty_upper [OF assms(1) this]]
  show ?thesis by (simp add: push_range_def)
qed

lemma reserve_Throws: "reserve ok n s = Throws e s' \<Longrightarrow> s' = s"
  by (auto simp: reserve_def Let_def split: if_splits sum.splits option.splits)

lemma reachable_wf: "reachable s \<Longrightarrow> wf s"
proof (induction rule: reachable.induct)
  case reach_default
  show ?case by (simp add: wf_def ring_default_def)
next
  case (reach_sized ok c s)
  then show ?case by (auto simp: ring_sized_def allocate_def wf_def split: if_splits)
next
  case (reach_push s x)
  then show ?case by (simp add: wf_push)
next
  case (reach_push_range s xs of_ptr b)
  then show ?case by (simp add: wf_push_range)
next
  case (reach_pop s)
  then show ?case by (simp add: wf_pop)
next
  case (reach_reserve s ok n s')
  then show ?case by (simp add: wf_reserve)
next
  case (reach_reserve_throws s ok n e s')
  then show ?case by (auto dest: reserve_Throws)
qed

lemma run_reachable: "reachable s \<Longrightarrow> run ops s = Some (outs, t) \<Longrightarrow> reachable t"
proof (induction ops s arbitrary: outs rule: run.induct)
  case (1 s)
  then show ?case by simp
next
  case (2 x ops s)
  from "2.prems" have nf: "\<not> full s" and r: "run ops (push x s) = Some (outs, t)"
    by (auto split: if_splits)
  from "2.IH" [OF nf reach_push [OF "2.prems"(1) nf] r] show ?case .
next
  case (3 ops s)
  from "3.prems" have ne: "\<not> empty_ring s" by (auto split: if_splits)
  with "3.prems" obtain vs where r: "run ops (snd (pop s)) = Some (vs, t)"
    by (auto split: option.splits prod.splits)
  from "3.IH" [OF ne prod.collapse reach_pop [OF "3.prems"(1) ne] r] show ?case .
qed

lemma reachable_wrapped3: "reachable wrapped3"
proof -
  have a: "ring_sized True 3 = Inr fresh3"
    by (simp add: ring_sized_def allocate_def numeral_3_eq_3)
  have b: "run [Push 1, Push 2, Push 3, Pop, Pop, Push 4] fresh3 =
           Some ([Some 1, Some 2], wrapped3)"
    by (simp add: full_def empty_ring_def push_def pop_def unset_empty_def
        construct_at_upper_def slot_def Let_def)
  from run_reachable [OF reach_sized [OF a] b] show ?thesis .
qed

section \<open>What reserve and the range push do\<close>

lemma destroy_down_total:
  "stop \<le> p \<Longrightarrow>
   \<exists>st'. destroy_down st p stop = Some (st', stop) \<and> length st' = length st \<and>
         (\<forall>a b. b \<le> stop \<or> p \<le> a \<longrightarrow> span st' (a, b) = span st (a, b))"
proof (induction st p stop rule: destroy_down.induct)
  case (1 st p stop)
  show ?case
  proof (cases "p = stop")
    case True
    then show ?thesis by (simp add: destroy_down.simps)
  next
    case False
    with "1.prems" have z: "p \<noteq> 0" and le: "stop \<le> p - 1" by auto
    from "1.IH" [OF False z le] obtain st' where
      d: "destroy_down (st[p - 1 := None]) (p - 1) stop = Some (st', stop)"
      and l: "length st' = length st"
      and s: "\<forall>a b. b \<le> stop \<or> p - 1 \<le> a \<longrightarrow> span st' (a, b) = span (st[p - 1 := None]) (a, b)"
      by auto
    have "span st' (a, b) = span st (a, b)" if "b \<le> stop \<or> p \<le> a" for a b
    proof -
      from that le z have "span st' (a, b) = span (st[p - 1 := None]) (a, b)"
        using s by auto
      also from that le z have "\<dots> = span st (a, b)"
        by (intro span_update_outside) auto
      finally show ?thesis .
    qed
    with d l False z show ?thesis by (simp add: destroy_down.simps [of st p stop])
  qed
qed

lemma move_up_contents:
  "move_up old new lo it stop = (old', new', lo', it') \<Longrightarrow> lo \<le> stop \<Longrightarrow>
   it + (stop - lo) \<le> length new \<Longrightarrow>
   span new' (0, it') = span new (0, it) @ span old (lo, stop) \<and>
   (\<forall>a b. b \<le> lo \<or> stop \<le> a \<longrightarrow> span old' (a, b) = span old (a, b))"
proof (induction old new lo it stop rule: move_up.induct)
  case (1 old new lo it stop)
  show ?case
  proof (cases "lo < stop")
    case True
    with "1.prems" have m:
      "move_up (old[lo := None]) (new[it := slot old lo]) (lo + 1) (it + 1) stop =
       (old', new', lo', it')"
      by (simp add: move_up.simps [of old new lo it stop])
    from True "1.prems" have b: "lo + 1 \<le> stop"
      "it + 1 + (stop - (lo + 1)) \<le> length (new[it := slot old lo])" "it < length new"
      by auto
    from "1.IH" [OF True m b(1,2)] have
      n: "span new' (0, it') =
          span (new[it := slot old lo]) (0, it + 1) @ span (old[lo := None]) (lo + 1, stop)"
      and o: "\<forall>a b. b \<le> lo + 1 \<or> stop \<le> a \<longrightarrow>
                span old' (a, b) = span (old[lo := None]) (a, b)"
      by auto
    have "span (new[it := slot old lo]) (0, it + 1) = span new (0, it) @ [slot old lo]"
      using b(3) by (simp add: span_snoc_update)
    moreover have "span (old[lo := None]) (lo + 1, stop) = span old (lo + 1, stop)"
      by (simp add: span_update_outside)
    moreover have "span old (lo, stop) = slot old lo # span old (lo + 1, stop)"
      using True by (simp add: span_Cons)
    ultimately have 1: "span new' (0, it') = span new (0, it) @ span old (lo, stop)"
      using n by simp
    have "span old' (a, b) = span old (a, b)" if "b \<le> lo \<or> stop \<le> a" for a b
    proof -
      from that True have "span old' (a, b) = span (old[lo := None]) (a, b)" using o by auto
      also from that True have "\<dots> = span old (a, b)" by (intro span_update_outside) auto
      finally show ?thesis .
    qed
    with 1 show ?thesis by simp
  next
    case False
    with "1.prems" show ?thesis
      by (auto simp: move_up.simps [of old new lo it stop] span_empty)
  qed
qed


lemma relocate_contents:
  assumes "lower_bond_m s \<le> fub" "length blk = n"
    and "fub > upper_bond_m s \<longrightarrow> upper_bond_m s \<le> lower_bond_m s"
    and "lo2 = (if fub > upper_bond_m s then 0 else fub)"
    and "k = (fub - lower_bond_m s) + (upper_bond_m s - lo2)" "k \<le> n" "lo2 \<le> upper_bond_m s"
  shows "\<exists>st'. relocate n blk 0 fub s =
           \<lparr>capacity_m = n, storage = st', data_end_m = n, lower_bond_m = 0, upper_bond_m = k\<rparr> \<and>
         length st' = n \<and>
         span st' (0, k) =
           span (storage s) (lower_bond_m s, fub) @ span (storage s) (lo2, upper_bond_m s)"
proof -
  obtain old1 new1 lo1 it1 where
    m1: "move_up (storage s) blk (lower_bond_m s) 0 fub = (old1, new1, lo1, it1)"
    by (metis prod_cases4)
  from move_up_result [OF m1] assms(1) have r1: "lo1 = fub" "it1 = fub - lower_bond_m s"
    "length new1 = n"
    using assms(2) by (auto simp: max_def)
  from assms have "0 + (fub - lower_bond_m s) \<le> length blk" by simp
  from move_up_contents [OF m1 assms(1) this] have
    c1: "span new1 (0, it1) = span (storage s) (lower_bond_m s, fub)"
    and o1: "\<And>a b. b \<le> lower_bond_m s \<or> fub \<le> a \<Longrightarrow>
               span old1 (a, b) = span (storage s) (a, b)"
    by (auto simp: span_empty)
  from r1 assms(4) have l2: "(if lo1 > upper_bond_m s then 0 else lo1) = lo2" by simp
  obtain old2 new2 lo3 it2 where
    m2: "move_up old1 new1 lo2 it1 (upper_bond_m s) = (old2, new2, lo3, it2)"
    by (metis prod_cases4)
  from move_up_result [OF m2] r1 assms(5) have r2: "it2 = k" "length new2 = n" by auto
  from r1 assms(5,6) have "it1 + (upper_bond_m s - lo2) \<le> length new1" by simp
  from move_up_contents [OF m2 assms(7) this] have
    c2: "span new2 (0, it2) = span new1 (0, it1) @ span old1 (lo2, upper_bond_m s)"
    by simp
  from assms(3,4) have "upper_bond_m s \<le> lower_bond_m s \<or> fub \<le> lo2" by auto
  from o1 [OF this] c1 c2 r2 have
    "span new2 (0, k) =
       span (storage s) (lower_bond_m s, fub) @ span (storage s) (lo2, upper_bond_m s)"
    by simp
  moreover from m1 m2 l2 r2 have "relocate n blk 0 fub s =
      \<lparr>capacity_m = n, storage = new2, data_end_m = n, lower_bond_m = 0, upper_bond_m = k\<rparr>"
    by (simp add: relocate_def Let_def)
  ultimately show ?thesis using r2 by blast
qed

lemma reserve_keeps_queue:
  assumes "rep s q" "length q < n \<or> q = []" "ok \<or> n = 0"
  shows "\<exists>s'. reserve ok n s = Returns s' \<and> rep s' q \<and> capacity s' = n \<and>
              (capacity_m s \<noteq> n \<longrightarrow> lower_bond_m s' = 0)"
proof (cases "capacity_m s = n")
  case True
  with assms(1) show ?thesis by (simp add: reserve_def capacity_def)
next
  case False
  from assms(1) have w: "wf s" and l: "live s = map Some q" by (simp_all add: rep_def)
  from w have b: "data_end_m s - capacity_m s = 0" "data_end_m s = capacity_m s"
    by (simp_all add: wf_def)
  have a: "(if n \<noteq> 0 then allocate ok n else Inr []) =
           (Inr (replicate n None) :: error + 'a option list)"
    using assms(3) by (auto simp: allocate_def)
  show ?thesis
  proof (cases "upper_bond_m s = data_end_m s")
    case True
    with l have "q = []" by (simp add: live_def)
    with True False show ?thesis
      unfolding reserve_def a
      by (auto simp: Let_def rep_def wf_def live_def capacity_def)
  next
    case ne: False
    from rep_empty [OF assms(1)] ne have "q \<noteq> []" by (simp add: empty_ring_def)
    with assms(2) rep_size [OF assms(1)] have sz: "size_ring s < n" by simp
    from w ne have c: "lower_bond_m s < data_end_m s" "upper_bond_m s < data_end_m s"
      by (auto simp: wf_def)
    let ?fub = "if lower_bond_m s < upper_bond_m s then upper_bond_m s else data_end_m s"
    let ?lo2 = "if ?fub > upper_bond_m s then 0 else ?fub"
    from sz ne c b have d: "discard_back n 0 ?fub s = Some (s, ?fub)"
      by (auto simp: discard_back_def size_ring_def)
    from sz ne c b have k: "size_ring s = (?fub - lower_bond_m s) + (upper_bond_m s - ?lo2)"
      by (auto simp: size_ring_def)
    from c have "lower_bond_m s \<le> ?fub" "?fub > upper_bond_m s \<longrightarrow> upper_bond_m s \<le> lower_bond_m s"
      "?lo2 \<le> upper_bond_m s"
      by auto
    from relocate_contents [OF this(1) length_replicate this(2) refl k _ this(3), of n None] sz
    obtain st' where
      r: "relocate n (replicate n None) 0 ?fub s =
           \<lparr>capacity_m = n, storage = st', data_end_m = n, lower_bond_m = 0,
            upper_bond_m = size_ring s\<rparr>"
      and ls: "length st' = n"
      and sp: "span st' (0, size_ring s) =
           span (storage s) (lower_bond_m s, ?fub) @ span (storage s) (?lo2, upper_bond_m s)"
      by auto
    from ne c b have "live s =
        span (storage s) (lower_bond_m s, ?fub) @ span (storage s) (?lo2, upper_bond_m s)"
      by (auto simp: live_def span_empty)
    with sp have sp': "span st' (0, size_ring s) = live s" by simp
    from \<open>q \<noteq> []\<close> rep_size [OF assms(1)] have pos: "0 < size_ring s" by simp
    let ?s' = "\<lparr>capacity_m = n, storage = st', data_end_m = n, lower_bond_m = 0,
            upper_bond_m = size_ring s\<rparr>"
    from sz pos ls sp' l have "rep ?s' q"
      by (simp add: rep_def wf_def live_def)
    moreover from False ne d r b have "reserve ok n s = Returns ?s'"
      unfolding reserve_def a by (simp add: Let_def)
    ultimately show ?thesis by (simp add: capacity_def)
  qed
qed


lemma discard_back_total:
  assumes "wf s" "upper_bond_m s \<noteq> data_end_m s"
    and "fub = (if lower_bond_m s < upper_bond_m s then upper_bond_m s else data_end_m s)"
  shows "\<exists>s1 fub1. discard_back n 0 fub s = Some (s1, fub1)"
proof -
  from assms(1,2) have c: "lower_bond_m s < data_end_m s" "upper_bond_m s < data_end_m s"
    "data_end_m s = capacity_m s"
    by (auto simp: wf_def)
  show ?thesis
  proof (cases "fub - lower_bond_m s > n")
    case True
    have "\<exists>st1 up1. (if fub \<noteq> upper_bond_m s
               then destroy_down (storage s) (upper_bond_m s) 0
               else Some (storage s, upper_bond_m s)) = Some (st1, up1)"
      using destroy_down_total [of 0 "upper_bond_m s" "storage s"] by (cases "fub = upper_bond_m s") auto
    then obtain st1 up1 where d1: "(if fub \<noteq> upper_bond_m s
               then destroy_down (storage s) (upper_bond_m s) 0
               else Some (storage s, upper_bond_m s)) = Some (st1, up1)"
      by blast
    from True have "lower_bond_m s + n \<le> fub" by simp
    from destroy_down_total [OF this, of st1] obtain st2 where
      "destroy_down st1 fub (lower_bond_m s + n) = Some (st2, lower_bond_m s + n)" by auto
    with True d1 show ?thesis by (simp add: discard_back_def)
  next
    case False
    note nA = this
    show ?thesis
    proof (cases "lower_bond_m s \<ge> upper_bond_m s \<and>
              capacity_m s - (lower_bond_m s - upper_bond_m s) > n")
      case True
      with c have "lower_bond_m s - (capacity_m s - n) \<le> upper_bond_m s" by auto
      from destroy_down_total [OF this, of "storage s"] True nA show ?thesis
        by (auto simp: discard_back_def Let_def)
    next
      case False
      with nA show ?thesis by (auto simp: discard_back_def)
    qed
  qed
qed

lemma reserve_total:
  assumes "wf s" "ok \<or> n = 0"
  shows "\<exists>s'. reserve ok n s = Returns s'"
proof -
  from assms(1) have b: "data_end_m s - capacity_m s = 0" by (simp add: wf_def)
  have a: "(if n \<noteq> 0 then allocate ok n else Inr []) =
           (Inr (replicate n None) :: error + 'a option list)"
    using assms(2) by (auto simp: allocate_def)
  show ?thesis
  proof (cases "upper_bond_m s = data_end_m s")
    case True
    then show ?thesis unfolding reserve_def a by (simp add: Let_def)
  next
    case False
    from discard_back_total [OF assms(1) False refl, of n] False b show ?thesis
      unfolding reserve_def a by (auto simp: Let_def)
  qed
qed


lemma span_take: "a + k \<le> b \<Longrightarrow> take k (span st (a, b)) = span st (a, a + k)"
  by (simp add: span_def take_map)

lemma span_all: "span st (0, length st) = st"
  by (rule nth_equalityI) (auto simp: span_def slot_def)

lemma reserve_not_above_size:
  assumes "rep s q" "q \<noteq> []" "n \<le> length q" "n \<noteq> capacity_m s" "ok \<or> n = 0"
  shows "reserve ok n s =
           Returns \<lparr>capacity_m = n, storage = map Some (take n q), data_end_m = n,
                    lower_bond_m = 0, upper_bond_m = n\<rparr>"
proof -
  from assms(1) have w: "wf s" and l: "live s = map Some q" by (simp_all add: rep_def)
  from w have b: "data_end_m s - capacity_m s = 0" "data_end_m s = capacity_m s"
    by (simp_all add: wf_def)
  have a: "(if n \<noteq> 0 then allocate ok n else Inr []) =
           (Inr (replicate n None) :: error + 'a option list)"
    using assms(5) by (auto simp: allocate_def)
  from rep_empty [OF assms(1)] assms(2) have ne: "upper_bond_m s \<noteq> data_end_m s"
    by (simp add: empty_ring_def)
  from w ne have c: "lower_bond_m s < data_end_m s" "upper_bond_m s < data_end_m s"
    by (auto simp: wf_def)
  let ?lo = "lower_bond_m s" and ?up = "upper_bond_m s" and ?st = "storage s"
  let ?fub = "if ?lo < ?up then ?up else data_end_m s"
  let ?lo2 = "if ?fub > ?up then 0 else ?fub"
  from ne c b have lv: "live s = span ?st (?lo, ?fub) @ span ?st (?lo2, ?up)"
    by (auto simp: live_def span_empty)
  from rep_size [OF assms(1)] assms(3) have sz: "n \<le> size_ring s" by simp
  from ne c b have szk: "size_ring s = (?fub - ?lo) + (?up - ?lo2)"
    by (auto simp: size_ring_def)
  have "\<exists>s1 fub1 lo2 .
          discard_back n 0 ?fub s = Some (s1, fub1) \<and> lower_bond_m s1 \<le> fub1 \<and>
          (fub1 > upper_bond_m s1 \<longrightarrow> upper_bond_m s1 \<le> lower_bond_m s1) \<and>
          lo2 = (if fub1 > upper_bond_m s1 then 0 else fub1) \<and>
          n = (fub1 - lower_bond_m s1) + (upper_bond_m s1 - lo2) \<and> lo2 \<le> upper_bond_m s1 \<and>
          span (storage s1) (lower_bond_m s1, fub1) @ span (storage s1) (lo2, upper_bond_m s1) =
            take n (live s)"
  proof (cases "?fub - ?lo > n")
    case True
    have "\<exists>st1 up1. (if ?fub \<noteq> ?up then destroy_down ?st ?up 0 else Some (?st, ?up)) =
             Some (st1, up1) \<and> span st1 (?lo, ?lo + n) = span ?st (?lo, ?lo + n)"
    proof (cases "?fub = ?up")
      case True
      then show ?thesis by simp
    next
      case False
      with c have "?up \<le> ?lo" by (auto split: if_splits)
      with destroy_down_total [of 0 ?up ?st] False show ?thesis by auto
    qed
    then obtain st1 up1 where
      d1: "(if ?fub \<noteq> ?up then destroy_down ?st ?up 0 else Some (?st, ?up)) = Some (st1, up1)"
      and p1: "span st1 (?lo, ?lo + n) = span ?st (?lo, ?lo + n)"
      by blast
    from True have le: "?lo + n \<le> ?fub" by simp
    from destroy_down_total [OF this, of st1] obtain st2 where
      d2: "destroy_down st1 ?fub (?lo + n) = Some (st2, ?lo + n)"
      and p2: "span st2 (?lo, ?lo + n) = span st1 (?lo, ?lo + n)"
      by auto
    from True d1 d2 have
      d: "discard_back n 0 ?fub s =
            Some (s\<lparr>storage := st2, upper_bond_m := ?lo + n\<rparr>, ?lo + n)"
      by (simp add: discard_back_def)
    from le have "take n (live s) = span ?st (?lo, ?lo + n)"
      unfolding lv by (simp add: length_span span_take)
    with p1 p2 d show ?thesis by (simp add: span_empty)
  next
    case False
    note nA = this
    show ?thesis
    proof (cases "?lo \<ge> ?up \<and> capacity_m s - (?lo - ?up) > n")
      case True
      let ?second = "?lo - (capacity_m s - n)"
      from True nA c b have f: "?fub = data_end_m s" "?lo2 = 0" "?second \<le> ?up"
        "?second \<le> ?lo" "?second < data_end_m s" "n = (data_end_m s - ?lo) + ?second"
        by auto
      from destroy_down_total [OF f(3), of ?st] True obtain st1 where
        d1: "destroy_down ?st ?up ?second = Some (st1, ?second)"
        and p1: "span st1 (?lo, data_end_m s) = span ?st (?lo, data_end_m s)"
        and p2: "span st1 (0, ?second) = span ?st (0, ?second)"
        by auto
      from True c b have "n < capacity_m s + ?up - ?lo" by auto
      with True nA d1 f(1) have
        d: "discard_back n 0 ?fub s =
              Some (s\<lparr>storage := st1, upper_bond_m := ?second\<rparr>, data_end_m s)"
        by (simp add: discard_back_def Let_def)
      from f(6) have e: "n - (data_end_m s - ?lo) = ?second" "data_end_m s - ?lo \<le> n"
        by arith+
      from f(3) have "take ?second (span ?st (0, ?up)) = span ?st (0, ?second)"
        using span_take [of 0 ?second ?up ?st] by simp
      with e f(1,2) have
        "take n (live s) = span ?st (?lo, data_end_m s) @ span ?st (0, ?second)"
        unfolding lv by (simp add: length_span)
      with p1 p2 d f c show ?thesis by simp
    next
      case False
      with nA have d: "discard_back n 0 ?fub s = Some (s, ?fub)"
        by (simp add: discard_back_def)
      from False nA c b have "size_ring s \<le> n" by (auto simp: size_ring_def)
      with sz have e: "n = size_ring s" by simp
      with size_ring_live [OF w] have "take n (live s) = live s" by simp
      with d e c szk lv show ?thesis by auto
    qed
  qed
  then obtain s1 fub1 lo2 where
    d: "discard_back n 0 ?fub s = Some (s1, fub1)" and r1: "lower_bond_m s1 \<le> fub1"
    and r2: "fub1 > upper_bond_m s1 \<longrightarrow> upper_bond_m s1 \<le> lower_bond_m s1"
    and r3: "lo2 = (if fub1 > upper_bond_m s1 then 0 else fub1)"
    and r4: "n = (fub1 - lower_bond_m s1) + (upper_bond_m s1 - lo2)"
    and r5: "lo2 \<le> upper_bond_m s1"
    and r6: "span (storage s1) (lower_bond_m s1, fub1) @ span (storage s1) (lo2, upper_bond_m s1) =
            take n (live s)"
    by blast
  from relocate_contents [OF r1 length_replicate r2 r3 r4 order_refl r5, of None] r6
  obtain st' where
    r: "relocate n (replicate n None) 0 fub1 s1 =
          \<lparr>capacity_m = n, storage = st', data_end_m = n, lower_bond_m = 0, upper_bond_m = n\<rparr>"
    and ls: "length st' = n" and sp: "span st' (0, n) = take n (live s)"
    by auto
  from ls sp span_all [of st'] l have "st' = map Some (take n q)" by (simp add: take_map)
  with assms(4) ne d r b show ?thesis
    unfolding reserve_def a by (simp add: Let_def)
qed

lemma relocate_capacity: "capacity_m (relocate n blk db fub s) = n"
  by (simp add: relocate_def Let_def split: prod.splits)

lemma reserve_capacity:
  assumes "reserve ok n s = Returns s'"
  shows "capacity_m s' = n"
proof (cases "capacity_m s = n")
  case True
  with assms show ?thesis by (simp add: reserve_def)
next
  case False
  from reserve_Returns [OF assms False] show ?thesis
    by (cases "upper_bond_m s = data_end_m s") (auto simp: relocate_capacity)
qed

lemma upt_first: "[b..<b + length (x # xs)] = b # [b + 1..<b + 1 + length xs]"
  by (simp add: upt_conv_Cons del: upt_Suc)

lemma push_loop_fold:
  "wf s \<Longrightarrow> upper_bond_m s < data_end_m s \<Longrightarrow>
   push_loop of_ptr b xs s = foldl (\<lambda>s x. push x s) s (map of_ptr [b..<b + length xs])"
proof (induction xs arbitrary: b s)
  case Nil
  then show ?case by simp
next
  case (Cons x xs)
  from Cons.prems have p: "push (of_ptr b) s = construct_at_upper (of_ptr b) s"
    by (simp add: push_def unset_empty_def)
  from wf_construct [OF Cons.prems] have
    "push_loop of_ptr (b + 1) xs (construct_at_upper (of_ptr b) s) =
     foldl (\<lambda>s x. push x s) (construct_at_upper (of_ptr b) s)
       (map of_ptr [b + 1..<b + 1 + length xs])"
    by (intro Cons.IH) simp_all
  with p show ?case unfolding upt_first by simp
qed

lemma push_range_nonempty:
  assumes "wf s" "0 < capacity_m s" "xs \<noteq> []"
  shows "push_range of_ptr b xs s =
         foldl (\<lambda>s x. push x s) s (map of_ptr [b..<b + length xs])"
proof -
  from assms(3) obtain y ys where xs: "xs = y # ys" by (cases xs) auto
  let ?s1 = "push (of_ptr b) s"
  from wf_construct [OF wf_unset_empty [OF assms(1)] unset_empty_upper [OF assms(1,2)]]
  have w: "wf ?s1" "upper_bond_m ?s1 < data_end_m ?s1" by (simp_all add: push_def)
  have "push_range of_ptr b (y # ys) s = push_loop of_ptr (b + 1) ys ?s1"
    by (simp add: push_range_def push_def)
  also from push_loop_fold [OF w] have
    "\<dots> = foldl (\<lambda>s x. push x s) ?s1 (map of_ptr [b + 1..<b + 1 + length ys])" .
  also have "\<dots> = foldl (\<lambda>s x. push x s) s (map of_ptr [b..<b + length (y # ys)])"
    unfolding upt_first by simp
  finally show ?thesis using xs by simp
qed

text \<open>
  What the repaired reading of \<^verbatim>\<open>data\<close> returns away from the full ring. Between empty
  and full its spans have the total length \<open>size\<close> and give the live elements from head
  to tail: one span and the null pair when head is below tail, and when head is above
  tail the span from head to the end of the block and the span from offset 0 to tail.
  On an empty ring, where the comment in the source rules the call out, it returns a
  span over raw slots.
\<close>

lemma data_between_empty_and_full:
  assumes "wf s" "\<not> empty_ring s" "\<not> full s"
  shows "data_length s = size_ring s \<and> data_contents s = live s \<and>
         (if lower_bond_m s < upper_bond_m s then snd (data s) = None
          else fst (data s) = (lower_bond_m s, data_end_m s) \<and>
               snd (data s) = Some (0, upper_bond_m s))"
  using assms
  by (auto simp: wf_def empty_ring_def full_def data_def data_length_def data_contents_def
      span_length_def size_ring_def live_def)

lemma data_on_empty_ring:
  "empty_ring fresh2 \<and> size_ring fresh2 = 0 \<and> data fresh2 = ((0, 2), None) \<and>
   data_length fresh2 = 2 \<and> data_contents fresh2 = [None, None]"
  by (simp add: empty_ring_def data_length_def data_contents_def data_def span_length_def
      size_ring_def span_def slot_def upt_conv_Cons)

section \<open>The claims\<close>

text \<open>
  C1. FIFO law. Start from a ring of capacity \<open>c > 0\<close> and perform any list of pushes and
  pops, each push only when \<open>full\<close> is false and each pop only when \<open>empty\<close> is false
  (that is, \<open>run\<close> completes). Then the values the pops return are the first values
  pushed, in the order of the pushes, and what is left in the ring is the rest of the
  pushed values, in that order: the elements not yet popped.
\<close>

theorem fifo_law:
  assumes "0 < c" "ring_sized True c = Inr s0" "run ops s0 = Some (outs, s)"
  shows "outs = map Some (take (pops ops) (pushed ops)) \<and>
         live s = map Some (drop (pops ops) (pushed ops))"
  using run_rep [OF rep_sized [OF assms(2)] assms(3)] by (simp add: rep_def)

theorem fifo_law_witness:
  "(0::nat) < 2 \<and> ring_sized True 2 = Inr fresh2 \<and>
   run [Push 5, Push 7, Pop, Push 9, Pop] fresh2 =
     Some ([Some 5, Some 7],
           \<lparr>capacity_m = 2, storage = [Some 9, None], data_end_m = 2, lower_bond_m = 0,
            upper_bond_m = 1\<rparr>) \<and>
   [Some 5, Some 7] = map Some (take 2 [5, 7, 9 :: nat]) \<and>
   live \<lparr>capacity_m = 2, storage = [Some 9 :: nat option, None], data_end_m = 2,
          lower_bond_m = 0, upper_bond_m = 1\<rparr> = map Some (drop 2 [5, 7, 9])"
proof -
  have c: "(0::nat) < 2" by simp
  have a: "ring_sized True 2 = Inr fresh2"
    by (simp add: ring_sized_def allocate_def numeral_2_eq_2)
  have b: "run [Push 5, Push 7, Pop, Push 9, Pop] fresh2 =
     Some ([Some 5, Some 7],
           \<lparr>capacity_m = 2, storage = [Some 9, None], data_end_m = 2, lower_bond_m = 0,
            upper_bond_m = 1\<rparr>)"
    by (simp add: full_def empty_ring_def push_def pop_def unset_empty_def
        construct_at_upper_def slot_def Let_def)
  from fifo_law [OF c a b] have
    "[Some 5, Some 7] = map Some (take 2 [5, 7, 9 :: nat]) \<and>
     live \<lparr>capacity_m = 2, storage = [Some 9 :: nat option, None], data_end_m = 2,
            lower_bond_m = 0, upper_bond_m = 1\<rparr> = map Some (drop 2 [5, 7, 9])"
    by (simp add: numeral_2_eq_2)
  with c a b show ?thesis by blast
qed

text \<open>
  C6. For any capacity \<open>c\<close> and any interleaving of pushes and pops that respects the
  preconditions, the number of pops \<open>j\<close> is at most the number of pushes \<open>k\<close>, \<open>size\<close>
  returns \<open>k - j\<close>, and that is at most \<open>c\<close>. The preconditions are those of the
  claim: \<open>full\<close> answers whether the size is \<open>c\<close>, \<open>empty\<close> whether it is 0.
\<close>

theorem size_counts:
  assumes "ring_sized True c = Inr s0" "run ops s0 = Some (outs, s)"
  shows "pops ops \<le> length (pushed ops) \<and>
         size_ring s = length (pushed ops) - pops ops \<and> size_ring s \<le> c \<and>
         (full s \<longleftrightarrow> size_ring s = c) \<and> (empty_ring s \<longleftrightarrow> size_ring s = 0)"
proof -
  from run_rep [OF rep_sized [OF assms(1)] assms(2)]
  have p: "pops ops \<le> length (pushed ops)" and r: "rep s (drop (pops ops) (pushed ops))"
    by simp_all
  from r have w: "wf s" by (simp add: rep_def)
  from run_capacity [OF assms(2)] sized_capacity [OF assms(1)] have c: "capacity_m s = c"
    by simp
  from size_ring_le [OF w] c have "size_ring s \<le> c" by simp
  with p rep_size [OF r] full_iff_size [OF w] empty_iff_size [OF w] c show ?thesis by simp
qed

theorem size_counts_witness:
  "ring_sized True 3 = Inr fresh3 \<and>
   run [Push 1, Push 2, Push 3, Pop, Pop, Push 4] fresh3 = Some ([Some 1, Some 2], wrapped3) \<and>
   (2::nat) \<le> 4 \<and> size_ring wrapped3 = 4 - 2 \<and> size_ring wrapped3 \<le> 3 \<and>
   \<not> full wrapped3 \<and> \<not> empty_ring wrapped3"
proof -
  have a: "ring_sized True 3 = Inr fresh3"
    by (simp add: ring_sized_def allocate_def numeral_3_eq_3)
  have b: "run [Push 1, Push 2, Push 3, Pop, Pop, Push 4] fresh3 =
           Some ([Some 1, Some 2], wrapped3)"
    by (simp add: full_def empty_ring_def push_def pop_def unset_empty_def
        construct_at_upper_def slot_def Let_def)
  from size_counts [OF a b] have
    "(2::nat) \<le> 4 \<and> size_ring wrapped3 = 4 - 2 \<and> size_ring wrapped3 \<le> 3 \<and>
     \<not> full wrapped3 \<and> \<not> empty_ring wrapped3"
    by (simp add: numeral_2_eq_2)
  with a b show ?thesis by blast
qed

text \<open>
  C7. Every reachable ring whose \<open>capacity\<close> is 0 is empty and full at once and has size
  0: the default-constructed ring is one, and from every reachable ring \<open>reserve 0\<close>
  returns with such a ring.
\<close>

theorem zero_capacity_degenerate:
  assumes "reachable s"
  shows "(capacity s = 0 \<longrightarrow> empty_ring s \<and> full s \<and> size_ring s = 0) \<and>
         (\<exists>s'. reserve ok 0 s = Returns s' \<and> capacity s' = 0 \<and>
               empty_ring s' \<and> full s' \<and> size_ring s' = 0)"
proof -
  have z: "empty_ring t \<and> full t \<and> size_ring t = 0" if "wf t" "capacity t = 0" for t :: "'a ring"
    using that by (auto simp: wf_def capacity_def empty_ring_def full_def size_ring_def)
  from reachable_wf [OF assms] have w: "wf s" .
  from reserve_total [OF w, of ok 0] obtain s' where r: "reserve ok 0 s = Returns s'" by auto
  from reserve_capacity [OF r] have c: "capacity s' = 0" by (simp add: capacity_def)
  from z [OF wf_reserve [OF w r] c] r c z [OF w] show ?thesis by blast
qed

theorem zero_capacity_degenerate_witness:
  "reachable (ring_default :: nat ring) \<and> capacity (ring_default :: nat ring) = 0 \<and>
   empty_ring (ring_default :: nat ring) \<and> full (ring_default :: nat ring) \<and>
   size_ring (ring_default :: nat ring) = 0 \<and>
   reachable wrapped3 \<and> reserve True 0 wrapped3 = Returns ring_default"
proof -
  have c: "capacity (ring_default :: nat ring) = 0" by (simp add: capacity_def ring_default_def)
  have a: "reserve True 0 wrapped3 = Returns (ring_default :: nat ring)"
    by (simp add: reserve_def discard_back_def relocate_def destroy_down.simps
        move_up.simps ring_default_def Let_def)
  from zero_capacity_degenerate [OF reach_default, of True] c
  have "empty_ring (ring_default :: nat ring) \<and> full (ring_default :: nat ring) \<and>
        size_ring (ring_default :: nat ring) = 0"
    by blast
  with reach_default c a reachable_wrapped3 show ?thesis by blast
qed

text \<open>
  C9. In every reachable ring with a positive capacity, \<open>empty\<close> and \<open>full\<close> are never
  both true, and \<^verbatim>\<open>lower_bond_\<close> is never \<^verbatim>\<open>data_end_\<close>.
\<close>

theorem not_empty_and_full:
  assumes "reachable s" "0 < capacity s"
  shows "\<not> (empty_ring s \<and> full s) \<and> lower_bond_m s \<noteq> data_end_m s"
  using reachable_wf [OF assms(1)] assms(2)
  by (auto simp: wf_def capacity_def empty_ring_def full_def)

theorem not_empty_and_full_witness:
  "reachable wrapped3 \<and> 0 < capacity wrapped3 \<and>
   \<not> (empty_ring wrapped3 \<and> full wrapped3) \<and> lower_bond_m wrapped3 \<noteq> data_end_m wrapped3"
proof -
  have c: "0 < capacity wrapped3" by (simp add: capacity_def)
  from not_empty_and_full [OF reachable_wrapped3 c] reachable_wrapped3 c show ?thesis by blast
qed

text \<open>
  C8. When the allocation in \<open>reserve\<close> fails (it is made when the new capacity differs
  from the old one and is not 0), the exception leaves \<open>reserve\<close> with the buffer exactly
  as it was before the call; when the allocation in the sized constructor fails, the
  exception leaves the constructor.
\<close>

theorem allocation_failure:
  assumes "capacity_m s \<noteq> n" "n \<noteq> 0"
  shows "reserve False n s = Throws Bad_alloc s \<and>
         ring_sized False c = (Inl Bad_alloc :: error + 'a ring)"
  using assms by (simp add: reserve_def ring_sized_def allocate_def)

theorem allocation_failure_witness:
  "capacity_m wrapped3 \<noteq> 5 \<and> (5::nat) \<noteq> 0 \<and>
   reserve False 5 wrapped3 = Throws Bad_alloc wrapped3 \<and>
   ring_sized False 4 = (Inl Bad_alloc :: error + nat ring)"
proof -
  have a: "capacity_m wrapped3 \<noteq> 5" by simp
  have b: "(5::nat) \<noteq> 0" by simp
  from allocation_failure [OF a b, of 4] a b show ?thesis by blast
qed

text \<open>
  C10. The sized constructor called with capacity 0 gives the degenerate state of the
  default constructor: capacity 0, size 0, empty and full, with \<^verbatim>\<open>lower_bond_\<close> and
  \<^verbatim>\<open>upper_bond_\<close> both at \<^verbatim>\<open>data_end_\<close>; every query answers as it does on a
  default-constructed ring.
\<close>

theorem sized_zero:
  assumes "ring_sized True 0 = Inr s"
  shows "capacity s = 0 \<and> size_ring s = 0 \<and> empty_ring s \<and> full s \<and>
         lower_bond_m s = data_end_m s \<and> upper_bond_m s = data_end_m s \<and>
         capacity s = capacity ring_default \<and> size_ring s = size_ring ring_default \<and>
         empty_ring s = empty_ring ring_default \<and> full s = full ring_default"
  using assms
  by (auto simp: ring_sized_def allocate_def capacity_def size_ring_def empty_ring_def
      full_def ring_default_def)

theorem sized_zero_witness:
  "ring_sized True 0 = Inr (ring_default :: nat ring) \<and>
   capacity (ring_default :: nat ring) = 0 \<and> size_ring (ring_default :: nat ring) = 0 \<and>
   empty_ring (ring_default :: nat ring) \<and> full (ring_default :: nat ring) \<and>
   lower_bond_m (ring_default :: nat ring) = data_end_m (ring_default :: nat ring) \<and>
   upper_bond_m (ring_default :: nat ring) = data_end_m (ring_default :: nat ring)"
proof -
  have a: "ring_sized True 0 = Inr (ring_default :: nat ring)"
    by (simp add: ring_sized_def allocate_def ring_default_def)
  from sized_zero [OF a] a show ?thesis by blast
qed

text \<open>
  C4, at a failing input. The function \<^verbatim>\<open>data\<close> of the source does not compile where it is
  called; \<open>data\<close> is its reading with the missing braces added. A ring of capacity 2
  holds 5 and 7 and is full, so \<^verbatim>\<open>lower_bond_\<close> and \<^verbatim>\<open>upper_bond_\<close> are equal. The test
  \<^verbatim>\<open>lower_bond_ > upper_bond_\<close> is false, and \<open>data\<close> returns the one span from
  \<^verbatim>\<open>lower_bond_\<close> to \<^verbatim>\<open>upper_bond_\<close>, of length 0, and the null pair: the caller reads
  nothing, where \<open>size\<close> is 2 and the live elements are 5 and 7. The destructor,
  \<open>reserve\<close> and \<open>size\<close> take equal pointers for a wrapped ring.
\<close>

theorem data_on_full_ring:
  "ring_sized True 2 = Inr fresh2 \<and>
   run [Push 5, Push 7] fresh2 = Some ([], push 7 (push 5 fresh2)) \<and>
   reachable (push 7 (push 5 fresh2)) \<and>
   full (push 7 (push 5 fresh2)) \<and> \<not> empty_ring (push 7 (push 5 fresh2)) \<and>
   size_ring (push 7 (push 5 fresh2)) = 2 \<and>
   live (push 7 (push 5 fresh2)) = [Some 5, Some 7] \<and>
   data (push 7 (push 5 fresh2)) = ((0, 0), None) \<and>
   data_length (push 7 (push 5 fresh2)) = 0 \<and>
   data_contents (push 7 (push 5 fresh2)) = []"
proof -
  have a: "ring_sized True 2 = Inr fresh2"
    by (simp add: ring_sized_def allocate_def numeral_2_eq_2)
  have b: "run [Push 5, Push 7] fresh2 = Some ([], push 7 (push 5 fresh2))"
    by (simp add: full_def push_def unset_empty_def construct_at_upper_def Let_def)
  from run_reachable [OF reach_sized [OF a] b] have r: "reachable (push 7 (push 5 fresh2))" .
  have f: "full (push 7 (push 5 fresh2)) \<and> \<not> empty_ring (push 7 (push 5 fresh2)) \<and>
   size_ring (push 7 (push 5 fresh2)) = 2 \<and>
   live (push 7 (push 5 fresh2)) = [Some 5, Some 7] \<and>
   data (push 7 (push 5 fresh2)) = ((0, 0), None) \<and>
   data_length (push 7 (push 5 fresh2)) = 0 \<and>
   data_contents (push 7 (push 5 fresh2)) = []"
    by (simp add: full_def empty_ring_def push_def unset_empty_def construct_at_upper_def
        Let_def data_length_def data_contents_def data_def span_length_def size_ring_def
        live_def span_def slot_def upt_conv_Cons)
  from a b r f show ?thesis by blast
qed

text \<open>
  C2, at a failing input. A ring of capacity 3 holds 1 and 2; \<open>reserve 2\<close> asks for the
  capacity that equals the size. The two elements are moved to the new block, and
  \<^verbatim>\<open>upper_bond_\<close> is left at the end of it, which is the sentinel of the empty ring: the
  ring of size 2 reports size 0. Lemma \<open>reserve_keeps_queue\<close> shows that \<open>reserve\<close> does
  what the claim says whenever the new capacity is above the size (or the ring is empty);
  lemma \<open>reserve_not_above_size\<close> gives the state it returns otherwise.
\<close>

theorem reserve_to_size_reports_empty:
  "ring_sized True 3 = Inr fresh3 \<and>
   run [Push 1, Push 2] fresh3 = Some ([], two_of_3) \<and>
   size_ring two_of_3 = 2 \<and> capacity two_of_3 \<noteq> 2 \<and>
   reserve True 2 two_of_3 = Returns after_reserve2 \<and>
   capacity after_reserve2 = 2 \<and> size_ring after_reserve2 = 0 \<and> empty_ring after_reserve2 \<and>
   live after_reserve2 = []"
  by (simp add: ring_sized_def allocate_def numeral_3_eq_3 numeral_2_eq_2 full_def
      empty_ring_def push_def unset_empty_def construct_at_upper_def Let_def size_ring_def
      capacity_def reserve_def discard_back_def relocate_def move_up.simps slot_def live_def)

text \<open>
  C3, at a failing input. A full ring of capacity 3 holds 1, 2 and 3; \<open>reserve 2\<close> destroys
  3, moves 1 and 2 to the new block and leaves \<^verbatim>\<open>upper_bond_\<close> at the end of it: the
  ring reports size 0 and not 2. By lemma \<open>reserve_not_above_size\<close> this is what happens
  at every new capacity \<open>n\<close> that is at most the size: the new block holds the \<open>n\<close> oldest
  elements in their order, and the ring reports that it is empty.
\<close>

theorem reserve_below_size_reports_empty:
  "ring_sized True 3 = Inr fresh3 \<and>
   run [Push 1, Push 2, Push 3] fresh3 = Some ([], full3) \<and>
   size_ring full3 = 3 \<and>
   reserve True 2 full3 = Returns after_reserve2 \<and>
   storage after_reserve2 = [Some 1, Some 2] \<and>
   size_ring after_reserve2 = 0 \<and> empty_ring after_reserve2"
  by (simp add: ring_sized_def allocate_def numeral_3_eq_3 numeral_2_eq_2 full_def
      empty_ring_def push_def unset_empty_def construct_at_upper_def Let_def size_ring_def
      reserve_def discard_back_def relocate_def move_up.simps destroy_down.simps slot_def)

text \<open>
  C5, at a failing input. \<open>push_range\<close> with an empty range on the fresh ring of capacity
  2 runs \<open>unset_empty\<close> and nothing else: the ring, which holds nothing, is now full with
  size 2, where no single push has left it empty. With the range 5, 7 at address 100 it
  stores the conversions of the addresses 100 and 101, where the single pushes store 5
  and 7. Lemma \<open>push_range_nonempty\<close> shows that a range that is not empty is pushed as
  the single pushes of these conversions are.
\<close>

theorem push_range_differs:
  "foldl (\<lambda>s x. push x s) fresh2 [] = fresh2 \<and> empty_ring fresh2 \<and> size_ring fresh2 = 0 \<and>
   length ([] :: nat list) \<le> capacity fresh2 - size_ring fresh2 \<and>
   push_range (\<lambda>p. p) 100 [] fresh2 = fresh2\<lparr>upper_bond_m := 0\<rparr> \<and>
   full (push_range (\<lambda>p. p) 100 [] fresh2) \<and>
   \<not> empty_ring (push_range (\<lambda>p. p) 100 [] fresh2) \<and>
   size_ring (push_range (\<lambda>p. p) 100 [] fresh2) = 2 \<and>
   storage (foldl (\<lambda>s x. push x s) fresh2 [5, 7]) = [Some 5, Some 7] \<and>
   storage (push_range (\<lambda>p. p) 100 [5, 7] fresh2) = [Some 100, Some 101]"
  by (simp add: push_range_def unset_empty_def construct_at_upper_def push_def Let_def
      full_def empty_ring_def size_ring_def capacity_def)

end
